theory Spec2Isabelle
  imports Main
begin

section \<open>Noughts and Crosses: data model\<close>

text \<open>
  The embedding follows \<^verbatim>\<open>src/noughts_and_crosses.cpp\<close>. The template parameter
  \<^verbatim>\<open>size\<close> / \<^verbatim>\<open>board_size\<close> of the C++ code is an ordinary \<open>int\<close> argument
  \<open>N\<close> here. A failed \<^verbatim>\<open>assert\<close> is the error value \<open>Assertion_failed\<close>.
\<close>

text \<open>\<^verbatim>\<open>struct CellIndex { int x; int y; }\<close>; the fields are called \<open>idx_x\<close> and
  \<open>idx_y\<close> so that \<open>x\<close> and \<open>y\<close> stay usable as variables.\<close>

datatype CellIndex = CellIndex (idx_x: int) (idx_y: int)

datatype Player = Noughts | Crosses

datatype error = Assertion_failed

text \<open>\<^verbatim>\<open>class Board\<close> wraps one \<^verbatim>\<open>std::array<std::optional<Player>, size * size>\<close>.
  The array is a list; that it has \<open>size * size\<close> elements is \<open>wf_board\<close>.\<close>

type_synonym Board = "Player option list"

definition wf_board :: "int \<Rightarrow> Board \<Rightarrow> bool" where
  "wf_board N b \<longleftrightarrow> length b = nat (N * N)"

text \<open>\<^verbatim>\<open>Board<size>{}\<close>: every optional is value-initialised to \<^verbatim>\<open>nullopt\<close>.\<close>

definition empty_board :: "int \<Rightarrow> Board" where
  "empty_board N = replicate (nat (N * N)) None"

text \<open>The condition of the assertion in both \<^verbatim>\<open>operator[]\<close>.\<close>

definition index_in_range :: "int \<Rightarrow> CellIndex \<Rightarrow> bool" where
  "index_in_range N index \<longleftrightarrow>
     idx_x index \<ge> 0 \<and> idx_x index < N \<and> idx_y index \<ge> 0 \<and> idx_y index < N"

text \<open>The position \<^verbatim>\<open>index.x + index.y * size\<close> in \<^verbatim>\<open>_cells\<close>.\<close>

definition cell_offset :: "int \<Rightarrow> CellIndex \<Rightarrow> nat" where
  "cell_offset N index = nat (idx_x index + idx_y index * N)"

text \<open>\<^verbatim>\<open>operator[]\<close> used for reading.\<close>

definition board_at :: "int \<Rightarrow> Board \<Rightarrow> CellIndex \<Rightarrow> error + Player option" where
  "board_at N b index =
     (if index_in_range N index then Inr (b ! cell_offset N index)
      else Inl Assertion_failed)"

text \<open>\<^verbatim>\<open>operator[]\<close> (non-const) used as the target of an assignment.\<close>

definition board_assign :: "int \<Rightarrow> Board \<Rightarrow> CellIndex \<Rightarrow> Player option \<Rightarrow> error + Board" where
  "board_assign N b index v =
     (if index_in_range N index then Inr (b[cell_offset N index := v])
      else Inl Assertion_failed)"

section \<open>Turn controller\<close>

fun change_player :: "Player \<Rightarrow> Player" where
  "change_player player = (if player = Noughts then Crosses else Noughts)"

text \<open>\<^verbatim>\<open>try_to_play\<close> mutates the board and the current player through references;
  the model returns the pair of both, or the error of a failed assertion.\<close>

definition try_to_play ::
  "int \<Rightarrow> CellIndex option \<Rightarrow> Board \<times> Player \<Rightarrow> error + Board \<times> Player" where
  "try_to_play N cell_index st =
     (case st of (board, current_player) \<Rightarrow>
        (case cell_index of
           None \<Rightarrow> Inr (board, current_player)
         | Some index \<Rightarrow>
             (case board_at N board index of
                Inl e \<Rightarrow> Inl e
              | Inr cell \<Rightarrow>
                  (let cell_is_empty = (cell = None) in
                   if cell_is_empty then
                     (case board_assign N board index (Some current_player) of
                        Inl e \<Rightarrow> Inl e
                      | Inr board' \<Rightarrow> Inr (board', change_player current_player))
                   else Inr (board, current_player)))))"

section \<open>Coordinate mapping\<close>

text \<open>
  \<^verbatim>\<open>cell_hovered_by\<close> computes, in binary floating point and through \<^verbatim>\<open>p6::map\<close>
  and \<^verbatim>\<open>glm::vec2\<close> of the external libraries p6 and glm (not part of this repository),
  the pair \<^verbatim>\<open>static_cast<int>(std::floor(pos.x))\<close>, \<^verbatim>\<open>static_cast<int>(std::floor(pos.y))\<close>
  with \<^verbatim>\<open>pos = p6::map(position, -1, 1, 0, board_size)\<close>. That computation is the
  parameter \<open>floor_map\<close>, over an arbitrary type \<open>'pos\<close> of positions; the guard
  that follows it is the code's.
\<close>

definition cell_hovered_by ::
  "('pos \<Rightarrow> int \<Rightarrow> int \<times> int) \<Rightarrow> 'pos \<Rightarrow> int \<Rightarrow> CellIndex option" where
  "cell_hovered_by floor_map position board_size =
     (let index = (case floor_map position board_size of (fx, fy) \<Rightarrow> CellIndex fx fy) in
      if idx_x index \<ge> 0 \<and> idx_x index < board_size \<and>
         idx_y index \<ge> 0 \<and> idx_y index < board_size
      then Some index
      else None)"

section \<open>Drawing\<close>

text \<open>
  The rendering context \<^verbatim>\<open>p6::Context\<close> is external. The model keeps what the game
  sets and calls on it: the stroke and fill colours, the stroke weight, the shapes drawn
  in order, whether \<^verbatim>\<open>stop()\<close> was called, and the pointer position that
  \<^verbatim>\<open>ctx.mouse()\<close> returns. The floating-point arguments of a shape are determined by
  the cell index and the board size it was computed from, and the shape records those.
\<close>

datatype colour =
    Black         \<comment> \<open>\<^verbatim>\<open>{0, 0, 0}\<close>\<close>
  | White         \<comment> \<open>\<^verbatim>\<open>{1.f, 1.f, 1.f, 1.f}\<close>\<close>
  | Transparent   \<comment> \<open>\<^verbatim>\<open>{0, 0, 0, 0}\<close>\<close>

datatype weight =
    Frame_weight      \<comment> \<open>\<^verbatim>\<open>0.01f\<close>\<close>
  | Mark_weight int   \<comment> \<open>\<^verbatim>\<open>0.4f * cell_radius(board_size)\<close>\<close>

datatype shape =
    Background
      \<comment> \<open>\<^verbatim>\<open>ctx.background({.3f, 0.25f, 0.35f})\<close>\<close>
  | Square CellIndex int
      \<comment> \<open>\<^verbatim>\<open>ctx.square(BottomLeftCorner{cell_bottom_left_corner(index, n)}, Radius{cell_radius(n)})\<close>\<close>
  | Circle CellIndex int
      \<comment> \<open>\<^verbatim>\<open>ctx.circle(Center{cell_center(index, n)}, Radius{0.9f * cell_radius(n)})\<close>\<close>
  | Rectangle CellIndex int bool
      \<comment> \<open>\<^verbatim>\<open>ctx.rectangle(Center{cell_center(index, n)}, Radii{{1.f, 0.2f} * cell_radius(n)}, r)\<close>
          with \<open>r\<close> the rotation \<^verbatim>\<open>0.125_turn\<close> (\<open>False\<close>) or its negation (\<open>True\<close>)\<close>

record 'pos Context =
  mouse :: 'pos
  stroke :: colour
  fill :: colour
  stroke_weight :: weight
  drawn :: "shape list"
  stopped :: bool

definition draw_cell :: "CellIndex \<Rightarrow> int \<Rightarrow> 'pos Context \<Rightarrow> 'pos Context" where
  "draw_cell index board_size ctx = ctx\<lparr>drawn := drawn ctx @ [Square index board_size]\<rparr>"

definition draw_nought :: "CellIndex \<Rightarrow> int \<Rightarrow> 'pos Context \<Rightarrow> 'pos Context" where
  "draw_nought index board_size ctx =
     ctx\<lparr>stroke := Black, fill := Transparent, stroke_weight := Mark_weight board_size,
         drawn := drawn ctx @ [Circle index board_size]\<rparr>"

definition draw_cross :: "CellIndex \<Rightarrow> int \<Rightarrow> 'pos Context \<Rightarrow> 'pos Context" where
  "draw_cross index board_size ctx =
     ctx\<lparr>stroke := Black, fill := Transparent, stroke_weight := Mark_weight board_size,
         drawn := drawn ctx @ [Rectangle index board_size False, Rectangle index board_size True]\<rparr>"

function draw_board_column :: "int \<Rightarrow> int \<Rightarrow> int \<Rightarrow> 'pos Context \<Rightarrow> 'pos Context" where
  "draw_board_column sz x y ctx =
     (if y < sz then draw_board_column sz x (y + 1) (draw_cell (CellIndex x y) sz ctx)
      else ctx)"
  by pat_completeness auto
termination
  by (relation "measure (\<lambda>(sz, x, y, ctx). nat (sz - y))") auto

function draw_board_from :: "int \<Rightarrow> int \<Rightarrow> 'pos Context \<Rightarrow> 'pos Context" where
  "draw_board_from sz x ctx =
     (if x < sz then draw_board_from sz (x + 1) (draw_board_column sz x 0 ctx)
      else ctx)"
  by pat_completeness auto
termination
  by (relation "measure (\<lambda>(sz, x, ctx). nat (sz - x))") auto

definition draw_board :: "int \<Rightarrow> 'pos Context \<Rightarrow> 'pos Context" where
  "draw_board sz ctx = draw_board_from sz 0 ctx"

definition draw_player :: "Player \<Rightarrow> CellIndex \<Rightarrow> int \<Rightarrow> 'pos Context \<Rightarrow> 'pos Context" where
  "draw_player player index board_size ctx =
     (if player = Noughts then draw_nought index board_size ctx
      else draw_cross index board_size ctx)"

text \<open>The two nested loops of \<^verbatim>\<open>draw_noughts_and_crosses\<close>: the inner one over
  \<open>y\<close>, the outer one over \<open>x\<close>, both from 0 while below \<open>sz\<close>.\<close>

function draw_noughts_and_crosses_column ::
  "int \<Rightarrow> Board \<Rightarrow> int \<Rightarrow> int \<Rightarrow> 'pos Context \<Rightarrow> error + 'pos Context" where
  "draw_noughts_and_crosses_column sz board x y ctx =
     (if y < sz then
        (case board_at sz board (CellIndex x y) of
           Inl e \<Rightarrow> Inl e
         | Inr cell \<Rightarrow>
             draw_noughts_and_crosses_column sz board x (y + 1)
               (case cell of
                  Some player \<Rightarrow> draw_player player (CellIndex x y) sz ctx
                | None \<Rightarrow> ctx))
      else Inr ctx)"
  by pat_completeness auto
termination
  by (relation "measure (\<lambda>(sz, board, x, y, ctx). nat (sz - y))") auto

function draw_noughts_and_crosses_from ::
  "int \<Rightarrow> Board \<Rightarrow> int \<Rightarrow> 'pos Context \<Rightarrow> error + 'pos Context" where
  "draw_noughts_and_crosses_from sz board x ctx =
     (if x < sz then
        (case draw_noughts_and_crosses_column sz board x 0 ctx of
           Inl e \<Rightarrow> Inl e
         | Inr ctx' \<Rightarrow> draw_noughts_and_crosses_from sz board (x + 1) ctx')
      else Inr ctx)"
  by pat_completeness auto
termination
  by (relation "measure (\<lambda>(sz, board, x, ctx). nat (sz - x))") auto

definition draw_noughts_and_crosses :: "int \<Rightarrow> Board \<Rightarrow> 'pos Context \<Rightarrow> error + 'pos Context" where
  "draw_noughts_and_crosses sz board ctx = draw_noughts_and_crosses_from sz board 0 ctx"

text \<open>In \<^verbatim>\<open>hovered_cell.has_value() && !board[*hovered_cell].has_value()\<close> the board is
  read only when a cell is hovered.\<close>

definition try_draw_player_on_hovered_cell ::
  "('pos \<Rightarrow> int \<Rightarrow> int \<times> int) \<Rightarrow> int \<Rightarrow> Player \<Rightarrow> Board \<Rightarrow> 'pos Context \<Rightarrow> error + 'pos Context" where
  "try_draw_player_on_hovered_cell floor_map N player board ctx =
     (let hovered_cell = cell_hovered_by floor_map (mouse ctx) N in
      case hovered_cell of
        None \<Rightarrow> Inr ctx
      | Some index \<Rightarrow>
          (case board_at N board index of
             Inl e \<Rightarrow> Inl e
           | Inr cell \<Rightarrow>
               if cell = None then Inr (draw_player player index N ctx) else Inr ctx))"

section \<open>Win detector\<close>

definition board_is_full :: "Board \<Rightarrow> bool" where
  "board_is_full board = list_all (\<lambda>cell. cell \<noteq> None) board"

text \<open>The loop of the lambda \<^verbatim>\<open>are_all_equal\<close>, from \<open>position\<close> on.\<close>

function are_all_equal :: "int \<Rightarrow> Board \<Rightarrow> (int \<Rightarrow> CellIndex) \<Rightarrow> int \<Rightarrow> error + bool" where
  "are_all_equal N board index_generator position =
     (if position < N - 1 then
        (case board_at N board (index_generator position) of
           Inl e \<Rightarrow> Inl e
         | Inr c1 \<Rightarrow>
             (case board_at N board (index_generator (position + 1)) of
                Inl e \<Rightarrow> Inl e
              | Inr c2 \<Rightarrow>
                  if c1 \<noteq> c2 then Inr False
                  else are_all_equal N board index_generator (position + 1)))
      else Inr True)"
  by pat_completeness auto
termination
  by (relation "measure (\<lambda>(N, board, index_generator, position). nat (N - 1 - position))") auto

text \<open>\<^verbatim>\<open>&&\<close> reads \<^verbatim>\<open>board[index_generator(0)]\<close> only when the cells are all equal; the
  \<^verbatim>\<open>return\<close> reads it once more.\<close>

definition check_for_winner_on_line ::
  "int \<Rightarrow> Board \<Rightarrow> (int \<Rightarrow> CellIndex) \<Rightarrow> error + Player option" where
  "check_for_winner_on_line N board index_generator =
     (case are_all_equal N board index_generator 0 of
        Inl e \<Rightarrow> Inl e
      | Inr all_equal \<Rightarrow>
          if \<not> all_equal then Inr None
          else
            (case board_at N board (index_generator 0) of
               Inl e \<Rightarrow> Inl e
             | Inr first \<Rightarrow>
                 if first \<noteq> None then board_at N board (index_generator 0)
                 else Inr None))"

function check_columns :: "int \<Rightarrow> Board \<Rightarrow> int \<Rightarrow> Player option \<Rightarrow> error + Player option" where
  "check_columns N board x winner =
     (if x < N \<and> winner = None then
        (case check_for_winner_on_line N board (\<lambda>position. CellIndex x position) of
           Inl e \<Rightarrow> Inl e
         | Inr w \<Rightarrow> check_columns N board (x + 1) w)
      else Inr winner)"
  by pat_completeness auto
termination
  by (relation "measure (\<lambda>(N, board, x, winner). nat (N - x))") auto

function check_rows :: "int \<Rightarrow> Board \<Rightarrow> int \<Rightarrow> Player option \<Rightarrow> error + Player option" where
  "check_rows N board y winner =
     (if y < N \<and> winner = None then
        (case check_for_winner_on_line N board (\<lambda>position. CellIndex position y) of
           Inl e \<Rightarrow> Inl e
         | Inr w \<Rightarrow> check_rows N board (y + 1) w)
      else Inr winner)"
  by pat_completeness auto
termination
  by (relation "measure (\<lambda>(N, board, y, winner). nat (N - y))") auto

definition check_for_winner :: "int \<Rightarrow> Board \<Rightarrow> error + Player option" where
  "check_for_winner N board =
     (case check_columns N board 0 None of
        Inl e \<Rightarrow> Inl e
      | Inr winner1 \<Rightarrow>
     (case check_rows N board 0 winner1 of
        Inl e \<Rightarrow> Inl e
      | Inr winner2 \<Rightarrow>
     (case (if winner2 = None
            then check_for_winner_on_line N board (\<lambda>position. CellIndex position position)
            else Inr winner2) of
        Inl e \<Rightarrow> Inl e
      | Inr winner3 \<Rightarrow>
          if winner3 = None
          then check_for_winner_on_line N board (\<lambda>position. CellIndex position (N - position - 1))
          else Inr winner3)))"

text \<open>\<^verbatim>\<open>game_is_finished\<close> returns its result together with the text it writes to
  \<^verbatim>\<open>std::cout\<close>; \<open>CHR 0x0A\<close> is the \<^verbatim>\<open>\n\<close> that ends each message.\<close>

definition game_is_finished :: "int \<Rightarrow> Board \<Rightarrow> error + bool \<times> string" where
  "game_is_finished N board =
     (case check_for_winner N board of
        Inl e \<Rightarrow> Inl e
      | Inr winner \<Rightarrow>
          (case winner of
             Some w \<Rightarrow>
               if w = Noughts then Inr (True, ''Noughts have won!'' @ [CHR 0x0A])
               else Inr (True, ''Crosses have won!'' @ [CHR 0x0A])
           | None \<Rightarrow>
               if board_is_full board then Inr (True, ''This is a draw!'' @ [CHR 0x0A])
               else Inr (False, [])))"

section \<open>Session\<close>

text \<open>The two callbacks of \<^verbatim>\<open>play_noughts_and_crosses\<close>. They capture the board, the
  current player and the context by reference; \<open>N\<close> stands for the constant
  \<^verbatim>\<open>board_size\<close>, which is \<open>session_board_size\<close> in the game.\<close>

definition session_board_size :: int where
  "session_board_size = 3"

definition mouse_pressed ::
  "('pos \<Rightarrow> int \<Rightarrow> int \<times> int) \<Rightarrow> int \<Rightarrow> 'pos \<Rightarrow> Board \<times> Player \<Rightarrow> error + Board \<times> Player" where
  "mouse_pressed floor_map N position st =
     try_to_play N (cell_hovered_by floor_map position N) st"

text \<open>One frame: the result is the context and the text written to \<^verbatim>\<open>std::cout\<close>.\<close>

definition update ::
  "('pos \<Rightarrow> int \<Rightarrow> int \<times> int) \<Rightarrow> int \<Rightarrow> Board \<times> Player \<Rightarrow> 'pos Context \<Rightarrow>
   error + 'pos Context \<times> string" where
  "update floor_map N st ctx =
     (case st of (board, current_player) \<Rightarrow>
      let ctx1 = ctx\<lparr>drawn := drawn ctx @ [Background]\<rparr>;
          ctx2 = ctx1\<lparr>stroke_weight := Frame_weight\<rparr>;
          ctx3 = ctx2\<lparr>stroke := White\<rparr>;
          ctx4 = ctx3\<lparr>fill := Transparent\<rparr>;
          ctx5 = draw_board N ctx4
      in case draw_noughts_and_crosses N board ctx5 of
           Inl e \<Rightarrow> Inl e
         | Inr ctx6 \<Rightarrow>
        (case try_draw_player_on_hovered_cell floor_map N current_player board ctx6 of
           Inl e \<Rightarrow> Inl e
         | Inr ctx7 \<Rightarrow>
        (case game_is_finished N board of
           Inl e \<Rightarrow> Inl e
         | Inr (finished, out) \<Rightarrow>
             if finished then Inr (ctx7\<lparr>stopped := True\<rparr>, out) else Inr (ctx7, out))))"

text \<open>A sequence of \<^verbatim>\<open>try_to_play\<close> calls, given by the argument \<^verbatim>\<open>cell_index\<close> of each:
  the list of states the board and the current player go through, starting with the
  given one. A failed assertion aborts the program, and the list ends there.\<close>

fun play_trace :: "int \<Rightarrow> CellIndex option list \<Rightarrow> Board \<times> Player \<Rightarrow> (Board \<times> Player) list" where
  "play_trace N [] st = [st]"
| "play_trace N (c # cs) st =
     st # (case try_to_play N c st of Inl e \<Rightarrow> [] | Inr st' \<Rightarrow> play_trace N cs st')"

text \<open>The trace of a game: \<^verbatim>\<open>play_noughts_and_crosses\<close> starts from the empty board with
  Crosses to move.\<close>

definition game_trace :: "int \<Rightarrow> CellIndex option list \<Rightarrow> (Board \<times> Player) list" where
  "game_trace N calls = play_trace N calls (empty_board N, Crosses)"

text \<open>The equations of the loops are unfolded by hand, one iteration at a time.\<close>

declare draw_board_column.simps [simp del]
  draw_board_from.simps [simp del]
  draw_noughts_and_crosses_column.simps [simp del]
  draw_noughts_and_crosses_from.simps [simp del]
  are_all_equal.simps [simp del]
  check_columns.simps [simp del]
  check_rows.simps [simp del]

section \<open>Winning lines, as the specification words them\<close>

text \<open>The 2N + 2 lines in the order of evaluation: columns \<open>x = 0 \<dots> N - 1\<close>, rows
  \<open>y = 0 \<dots> N - 1\<close>, the main diagonal and the anti-diagonal. A line is the function
  from the position along it to the cell index.\<close>

definition lines :: "int \<Rightarrow> (int \<Rightarrow> CellIndex) list" where
  "lines N =
     map (\<lambda>x position. CellIndex x position) [0..N - 1] @
     map (\<lambda>y position. CellIndex position y) [0..N - 1] @
     [\<lambda>position. CellIndex position position,
      \<lambda>position. CellIndex position (N - position - 1)]"

text \<open>All \<open>N\<close> cells of the line are occupied by player \<open>p\<close>.\<close>

definition line_filled :: "int \<Rightarrow> Board \<Rightarrow> (int \<Rightarrow> CellIndex) \<Rightarrow> Player \<Rightarrow> bool" where
  "line_filled N board line p \<longleftrightarrow>
     list_all (\<lambda>position. board_at N board (line position) = Inr (Some p)) [0..N - 1]"

text \<open>Some column, row or diagonal is filled by \<open>p\<close>.\<close>

definition some_line_filled :: "int \<Rightarrow> Board \<Rightarrow> Player \<Rightarrow> bool" where
  "some_line_filled N board p \<longleftrightarrow> list_ex (\<lambda>line. line_filled N board line p) (lines N)"

text \<open>The player who fills the line, if one does.\<close>

definition line_owner :: "int \<Rightarrow> Board \<Rightarrow> (int \<Rightarrow> CellIndex) \<Rightarrow> Player option" where
  "line_owner N board line =
     (if line_filled N board line Noughts then Some Noughts
      else if line_filled N board line Crosses then Some Crosses
      else None)"

text \<open>The owner of the first won line of a list of lines.\<close>

fun first_won :: "int \<Rightarrow> Board \<Rightarrow> (int \<Rightarrow> CellIndex) list \<Rightarrow> Player option" where
  "first_won N board [] = None"
| "first_won N board (line # rest) =
     (case line_owner N board line of
        Some p \<Rightarrow> Some p
      | None \<Rightarrow> first_won N board rest)"

section \<open>Observing a sequence of calls\<close>

text \<open>The number of steps of a trace at which the cell stored at offset \<open>k\<close> changed,
  that is, the number of calls that wrote it.\<close>

fun writes_at :: "nat \<Rightarrow> (Board \<times> Player) list \<Rightarrow> nat" where
  "writes_at k (s # s' # rest) =
     (if fst s ! k \<noteq> fst s' ! k then 1 else 0) + writes_at k (s' # rest)"
| "writes_at k [s] = 0"
| "writes_at k [] = 0"

text \<open>The number of steps at which the board changed: the legal moves.\<close>

fun legal_moves :: "(Board \<times> Player) list \<Rightarrow> nat" where
  "legal_moves (s # s' # rest) =
     (if fst s \<noteq> fst s' then 1 else 0) + legal_moves (s' # rest)"
| "legal_moves [s] = 0"
| "legal_moves [] = 0"

text \<open>From each state of the trace to the next, every occupied cell keeps its occupant.\<close>

fun cells_kept :: "(Board \<times> Player) list \<Rightarrow> bool" where
  "cells_kept (s # s' # rest) \<longleftrightarrow>
     list_all (\<lambda>k. fst s ! k \<noteq> None \<longrightarrow> fst s' ! k = fst s ! k) [0..<length (fst s)] \<and>
     cells_kept (s' # rest)"
| "cells_kept [s] \<longleftrightarrow> True"
| "cells_kept [] \<longleftrightarrow> True"

text \<open>The number of occupied cells of a board.\<close>

definition occupied :: "Board \<Rightarrow> nat" where
  "occupied board = length (filter (\<lambda>cell. cell \<noteq> None) board)"

section \<open>Basic facts about the board\<close>

lemma cell_offset_less:
  assumes "index_in_range N index"
  shows "cell_offset N index < nat (N * N)"
proof -
  from assms have x: "0 \<le> idx_x index" "idx_x index < N"
    and y: "0 \<le> idx_y index" "idx_y index + 1 \<le> N"
    by (simp_all add: index_in_range_def)
  from y x have "(idx_y index + 1) * N \<le> N * N"
    by (intro mult_right_mono) simp_all
  with x have "idx_x index + idx_y index * N < N * N"
    by (simp add: algebra_simps)
  moreover have "0 \<le> idx_x index + idx_y index * N"
    using x y by simp
  ultimately show ?thesis
    by (simp add: cell_offset_def)
qed

lemma cell_offset_inj:
  assumes "index_in_range N i" "index_in_range N j" "cell_offset N i = cell_offset N j"
  shows "i = j"
proof -
  from assms(1) have i: "0 \<le> idx_x i" "idx_x i < N" "0 \<le> idx_y i"
    by (simp_all add: index_in_range_def)
  from assms(2) have j: "0 \<le> idx_x j" "idx_x j < N" "0 \<le> idx_y j"
    by (simp_all add: index_in_range_def)
  have "0 \<le> idx_y i * N" "0 \<le> idx_y j * N"
    using i j by simp_all
  with i j have "0 \<le> idx_x i + idx_y i * N" "0 \<le> idx_x j + idx_y j * N"
    by simp_all
  with assms(3) have eq: "idx_x i + idx_y i * N = idx_x j + idx_y j * N"
    by (simp add: cell_offset_def)
  have "(idx_x i + idx_y i * N) mod N = idx_x i" "(idx_x j + idx_y j * N) mod N = idx_x j"
    using i j by simp_all
  with eq have xeq: "idx_x i = idx_x j" by simp
  with eq i have "idx_y i = idx_y j" by simp
  with xeq show ?thesis by (simp add: CellIndex.expand)
qed

lemma board_at_in_range [simp]:
  "index_in_range N index \<Longrightarrow> board_at N b index = Inr (b ! cell_offset N index)"
  by (simp add: board_at_def)

lemma board_assign_in_range [simp]:
  "index_in_range N index \<Longrightarrow> board_assign N b index v = Inr (b[cell_offset N index := v])"
  by (simp add: board_assign_def)

lemma wf_board_update [simp]: "wf_board N (b[k := v]) = wf_board N b"
  by (simp add: wf_board_def)

lemma wf_empty_board [simp]: "wf_board N (empty_board N)"
  by (simp add: wf_board_def empty_board_def)

lemma try_to_play_None [simp]: "try_to_play N None (b, p) = Inr (b, p)"
  by (simp add: try_to_play_def)

lemma try_to_play_Some:
  "index_in_range N index \<Longrightarrow>
   try_to_play N (Some index) (b, p) =
     (if b ! cell_offset N index = None
      then Inr (b[cell_offset N index := Some p], change_player p)
      else Inr (b, p))"
  by (simp add: try_to_play_def)

lemma try_to_play_out_of_range:
  "\<not> index_in_range N index \<Longrightarrow> try_to_play N (Some index) (b, p) = Inl Assertion_failed"
  by (simp add: try_to_play_def board_at_def)

section \<open>The win detector refines the first won line\<close>

lemma are_all_equal_eq:
  "(\<And>q. 0 \<le> q \<Longrightarrow> q < N \<Longrightarrow> index_in_range N (g q)) \<Longrightarrow> 0 \<le> position \<Longrightarrow>
   are_all_equal N b g position =
     Inr (\<forall>q. position \<le> q \<and> q < N - 1 \<longrightarrow>
            b ! cell_offset N (g q) = b ! cell_offset N (g (q + 1)))"
proof (induction N b g position rule: are_all_equal.induct)
  case (1 N b g position)
  show ?case
  proof (cases "position < N - 1")
    case False
    then show ?thesis
      by (subst are_all_equal.simps) auto
  next
    case True
    with "1.prems" have r1: "index_in_range N (g position)"
      and r2: "index_in_range N (g (position + 1))"
      by simp_all
    let ?F = "\<lambda>q. b ! cell_offset N (g q) = b ! cell_offset N (g (q + 1))"
    have split: "(\<forall>q. position \<le> q \<and> q < N - 1 \<longrightarrow> ?F q) \<longleftrightarrow>
                 ?F position \<and> (\<forall>q. position + 1 \<le> q \<and> q < N - 1 \<longrightarrow> ?F q)"
    proof -
      have "position \<le> q \<longleftrightarrow> q = position \<or> position + 1 \<le> q" for q
        by arith
      with True show ?thesis by auto
    qed
    show ?thesis
    proof (cases "?F position")
      case False
      with True r1 r2 split show ?thesis
        by (subst are_all_equal.simps) simp
    next
      case eq: True
      have "are_all_equal N b g (position + 1) =
              Inr (\<forall>q. position + 1 \<le> q \<and> q < N - 1 \<longrightarrow> ?F q)"
        using "1.IH" [OF True _ _ _ "1.prems"(1)] r1 r2 eq "1.prems"(2) by simp
      with True r1 r2 eq split show ?thesis
        by (subst are_all_equal.simps) simp
    qed
  qed
qed

lemma chain_equal_iff:
  fixes f :: "int \<Rightarrow> 'a"
  shows "(\<forall>q. 0 \<le> q \<and> q < N - 1 \<longrightarrow> f q = f (q + 1)) \<longleftrightarrow> (\<forall>q. 0 \<le> q \<and> q < N \<longrightarrow> f q = f 0)"
proof (intro iffI allI impI)
  fix q
  assume step: "\<forall>q. 0 \<le> q \<and> q < N - 1 \<longrightarrow> f q = f (q + 1)" and q: "0 \<le> q \<and> q < N"
  have "int n < N \<Longrightarrow> f (int n) = f 0" for n
  proof (induction n)
    case 0
    show ?case by simp
  next
    case (Suc n)
    then have "f (int n) = f 0" by simp
    moreover from Suc.prems step have "f (int n) = f (int n + 1)" by simp
    ultimately show ?case by (simp add: add.commute)
  qed
  from this [of "nat q"] q show "f q = f 0" by simp
next
  fix q
  assume all: "\<forall>q. 0 \<le> q \<and> q < N \<longrightarrow> f q = f 0" and q: "0 \<le> q \<and> q < N - 1"
  from all q have "f q = f 0" by (elim allE [where x = q]) simp
  moreover from all q have "f (q + 1) = f 0" by (elim allE [where x = "q + 1"]) simp
  ultimately show "f q = f (q + 1)" by simp
qed

lemma line_filled_iff:
  "(\<And>q. 0 \<le> q \<Longrightarrow> q < N \<Longrightarrow> index_in_range N (g q)) \<Longrightarrow>
   line_filled N b g p \<longleftrightarrow> (\<forall>q. 0 \<le> q \<and> q < N \<longrightarrow> b ! cell_offset N (g q) = Some p)"
  by (auto simp: line_filled_def list_all_iff)

lemma line_filled_unique:
  "1 \<le> N \<Longrightarrow> line_filled N b g p \<Longrightarrow> line_filled N b g q \<Longrightarrow> p = q"
  by (auto simp: line_filled_def list_all_iff dest!: bspec [where x = 0])

lemma check_for_winner_on_line_eq:
  assumes rng: "\<And>q. 0 \<le> q \<Longrightarrow> q < N \<Longrightarrow> index_in_range N (g q)" and N: "1 \<le> N"
  shows "check_for_winner_on_line N b g = Inr (line_owner N b g)"
proof -
  let ?c = "\<lambda>q. b ! cell_offset N (g q)"
  define same where "same \<longleftrightarrow> (\<forall>q. 0 \<le> q \<and> q < N \<longrightarrow> ?c q = ?c 0)"
  have r0: "index_in_range N (g 0)" using rng N by simp
  have "are_all_equal N b g 0 =
          Inr (\<forall>q. 0 \<le> q \<and> q < N - 1 \<longrightarrow> ?c q = ?c (q + 1))"
    by (rule are_all_equal_eq [OF rng]) simp_all
  then have eq: "are_all_equal N b g 0 = Inr same"
    unfolding same_def chain_equal_iff [of N ?c] .
  have filled: "line_filled N b g p \<longleftrightarrow> same \<and> ?c 0 = Some p" for p
  proof -
    have *: "line_filled N b g p \<longleftrightarrow> (\<forall>q. 0 \<le> q \<and> q < N \<longrightarrow> ?c q = Some p)"
      using rng by (rule line_filled_iff)
    show ?thesis
    proof
      assume "line_filled N b g p"
      with * have all: "\<forall>q. 0 \<le> q \<and> q < N \<longrightarrow> ?c q = Some p" by simp
      with N have "?c 0 = Some p" by simp
      with all show "same \<and> ?c 0 = Some p" by (simp add: same_def)
    next
      assume "same \<and> ?c 0 = Some p"
      then have "\<forall>q. 0 \<le> q \<and> q < N \<longrightarrow> ?c q = Some p"
        unfolding same_def by simp
      with * show "line_filled N b g p" by simp
    qed
  qed
  show ?thesis
  proof (cases same)
    case False
    with eq filled show ?thesis
      by (simp add: check_for_winner_on_line_def line_owner_def)
  next
    case True
    show ?thesis
    proof (cases "?c 0")
      case None
      with True eq filled r0 show ?thesis
        by (simp add: check_for_winner_on_line_def line_owner_def)
    next
      case (Some p)
      with True eq filled r0 show ?thesis
        by (cases p) (simp_all add: check_for_winner_on_line_def line_owner_def)
    qed
  qed
qed

lemma column_in_range:
  "0 \<le> x \<Longrightarrow> x < N \<Longrightarrow> 0 \<le> q \<Longrightarrow> q < N \<Longrightarrow> index_in_range N (CellIndex x q)"
  by (simp add: index_in_range_def)

lemma row_in_range:
  "0 \<le> y \<Longrightarrow> y < N \<Longrightarrow> 0 \<le> q \<Longrightarrow> q < N \<Longrightarrow> index_in_range N (CellIndex q y)"
  by (simp add: index_in_range_def)

lemma diagonal_in_range:
  "0 \<le> q \<Longrightarrow> q < N \<Longrightarrow> index_in_range N (CellIndex q q)"
  by (simp add: index_in_range_def)

lemma anti_diagonal_in_range:
  "0 \<le> q \<Longrightarrow> q < N \<Longrightarrow> index_in_range N (CellIndex q (N - q - 1))"
  by (simp add: index_in_range_def)

lemma check_columns_eq:
  "1 \<le> N \<Longrightarrow> 0 \<le> x \<Longrightarrow>
   check_columns N b x w =
     Inr (case w of
            Some p \<Rightarrow> Some p
          | None \<Rightarrow> first_won N b (map (\<lambda>x position. CellIndex x position) [x..N - 1]))"
proof (induction N b x w rule: check_columns.induct)
  case (1 N b x w)
  show ?case
  proof (cases "x < N \<and> w = None")
    case False
    then show ?thesis
      by (subst check_columns.simps) (auto split: option.splits)
  next
    case True
    have line: "check_for_winner_on_line N b (\<lambda>position. CellIndex x position) =
                  Inr (line_owner N b (\<lambda>position. CellIndex x position))"
      using True "1.prems" by (intro check_for_winner_on_line_eq column_in_range) simp_all
    have rec: "check_columns N b (x + 1) (line_owner N b (\<lambda>position. CellIndex x position)) =
                 Inr (case line_owner N b (\<lambda>position. CellIndex x position) of
                        Some p \<Rightarrow> Some p
                      | None \<Rightarrow> first_won N b (map (\<lambda>x position. CellIndex x position) [x + 1..N - 1]))"
      using "1.IH" [OF True line] "1.prems" by simp
    have range: "[x..N - 1] = x # [x + 1..N - 1]"
      using True by (simp add: upto_rec1)
    show ?thesis
      using True line rec range by (subst check_columns.simps) simp
  qed
qed

lemma check_rows_eq:
  "1 \<le> N \<Longrightarrow> 0 \<le> y \<Longrightarrow>
   check_rows N b y w =
     Inr (case w of
            Some p \<Rightarrow> Some p
          | None \<Rightarrow> first_won N b (map (\<lambda>y position. CellIndex position y) [y..N - 1]))"
proof (induction N b y w rule: check_rows.induct)
  case (1 N b y w)
  show ?case
  proof (cases "y < N \<and> w = None")
    case False
    then show ?thesis
      by (subst check_rows.simps) (auto split: option.splits)
  next
    case True
    have line: "check_for_winner_on_line N b (\<lambda>position. CellIndex position y) =
                  Inr (line_owner N b (\<lambda>position. CellIndex position y))"
      using True "1.prems" by (intro check_for_winner_on_line_eq row_in_range) simp_all
    have rec: "check_rows N b (y + 1) (line_owner N b (\<lambda>position. CellIndex position y)) =
                 Inr (case line_owner N b (\<lambda>position. CellIndex position y) of
                        Some p \<Rightarrow> Some p
                      | None \<Rightarrow> first_won N b (map (\<lambda>y position. CellIndex position y) [y + 1..N - 1]))"
      using "1.IH" [OF True line] "1.prems" by simp
    have range: "[y..N - 1] = y # [y + 1..N - 1]"
      using True by (simp add: upto_rec1)
    show ?thesis
      using True line rec range by (subst check_rows.simps) simp
  qed
qed

lemma first_won_append:
  "first_won N b (ls @ ms) =
     (case first_won N b ls of Some p \<Rightarrow> Some p | None \<Rightarrow> first_won N b ms)"
  by (induction ls) (simp_all split: option.splits)

lemma check_for_winner_eq:
  assumes "1 \<le> N"
  shows "check_for_winner N b = Inr (first_won N b (lines N))"
proof -
  let ?cols = "map (\<lambda>x position. CellIndex x position) [0..N - 1]"
  let ?rows = "map (\<lambda>y position. CellIndex position y) [0..N - 1]"
  let ?diag = "\<lambda>position. CellIndex position position"
  let ?anti = "\<lambda>position. CellIndex position (N - position - 1)"
  have cols: "check_columns N b 0 None = Inr (first_won N b ?cols)"
    using check_columns_eq [of N 0 b None] assms by simp
  have rows: "check_rows N b 0 w =
                Inr (case w of Some p \<Rightarrow> Some p | None \<Rightarrow> first_won N b ?rows)" for w
    using check_rows_eq [of N 0 b w] assms by simp
  have diag: "check_for_winner_on_line N b ?diag = Inr (line_owner N b ?diag)"
    using assms by (intro check_for_winner_on_line_eq diagonal_in_range) simp_all
  have anti: "check_for_winner_on_line N b ?anti = Inr (line_owner N b ?anti)"
    using assms by (intro check_for_winner_on_line_eq anti_diagonal_in_range) simp_all
  have "first_won N b (lines N) =
          (case first_won N b ?cols of
             Some p \<Rightarrow> Some p
           | None \<Rightarrow>
               (case first_won N b ?rows of
                  Some p \<Rightarrow> Some p
                | None \<Rightarrow>
                    (case line_owner N b ?diag of
                       Some p \<Rightarrow> Some p
                     | None \<Rightarrow> line_owner N b ?anti)))"
    by (simp add: lines_def first_won_append split: option.splits)
  then show ?thesis
    by (simp add: check_for_winner_def cols rows diag anti split: option.splits)
qed

lemma line_owner_Some_iff:
  "1 \<le> N \<Longrightarrow> line_owner N b l = Some p \<longleftrightarrow> line_filled N b l p"
  using line_filled_unique [of N b l Noughts Crosses]
  by (cases p) (auto simp: line_owner_def)

lemma line_owner_None_iff:
  "line_owner N b l = None \<longleftrightarrow> (\<forall>q. \<not> line_filled N b l q)"
  by (auto simp: line_owner_def) (metis Player.exhaust)

lemma first_won_Some_iff:
  assumes "1 \<le> N"
  shows "first_won N b ls = Some p \<longleftrightarrow>
         (\<exists>i<length ls. line_filled N b (ls ! i) p \<and>
            (\<forall>j<i. \<forall>q. \<not> line_filled N b (ls ! j) q))"
proof (induction ls)
  case Nil
  show ?case by simp
next
  case (Cons l ls)
  let ?R = "\<lambda>ms. \<exists>i<length ms. line_filled N b (ms ! i) p \<and>
                   (\<forall>j<i. \<forall>q. \<not> line_filled N b (ms ! j) q)"
  show ?case
  proof (cases "line_owner N b l")
    case None
    then have free: "\<forall>q. \<not> line_filled N b l q"
      by (simp add: line_owner_None_iff)
    have "?R (l # ls) \<longleftrightarrow> ?R ls"
    proof
      assume "?R (l # ls)"
      then obtain i where i: "i < length (l # ls)" "line_filled N b ((l # ls) ! i) p"
        "\<forall>j<i. \<forall>q. \<not> line_filled N b ((l # ls) ! j) q" by blast
      with free obtain i' where i': "i = Suc i'" by (cases i) auto
      with i have "i' < length ls" "line_filled N b (ls ! i') p" by simp_all
      moreover have "\<forall>j<i'. \<forall>q. \<not> line_filled N b (ls ! j) q"
      proof (intro allI impI)
        fix j q assume "j < i'"
        with i' have "Suc j < i" by simp
        with i(3) have "\<not> line_filled N b ((l # ls) ! Suc j) q" by blast
        then show "\<not> line_filled N b (ls ! j) q" by simp
      qed
      ultimately show "?R ls" by blast
    next
      assume "?R ls"
      then obtain i where i: "i < length ls" "line_filled N b (ls ! i) p"
        "\<forall>j<i. \<forall>q. \<not> line_filled N b (ls ! j) q" by blast
      have "\<forall>j<Suc i. \<forall>q. \<not> line_filled N b ((l # ls) ! j) q"
      proof (intro allI impI)
        fix j q assume "j < Suc i"
        with free i(3) show "\<not> line_filled N b ((l # ls) ! j) q"
          by (cases j) auto
      qed
      with i(1,2) show "?R (l # ls)"
        by (intro exI [where x = "Suc i"]) simp
    qed
    with None Cons.IH show ?thesis by simp
  next
    case (Some p')
    then have own: "line_filled N b l p'"
      using assms by (simp add: line_owner_Some_iff)
    have "?R (l # ls) \<longleftrightarrow> p' = p"
    proof
      assume "?R (l # ls)"
      then obtain i where i: "i < length (l # ls)" "line_filled N b ((l # ls) ! i) p"
        "\<forall>j<i. \<forall>q. \<not> line_filled N b ((l # ls) ! j) q" by blast
      have "i = 0"
      proof (rule ccontr)
        assume "i \<noteq> 0"
        then have "0 < i" by simp
        with i(3) have "\<not> line_filled N b ((l # ls) ! 0) p'" by blast
        with own show False by simp
      qed
      with i(2) have "line_filled N b l p" by simp
      with own show "p' = p" by (rule line_filled_unique [OF assms])
    next
      assume "p' = p"
      with own show "?R (l # ls)"
        by (intro exI [where x = 0]) simp
    qed
    with Some show ?thesis by simp
  qed
qed

section \<open>Turn controller: a single call\<close>

text \<open>
  C3. \<^verbatim>\<open>try_to_play\<close> on an absent index returns the board and the current player
  as they were. On the index of a cell of the board: when the cell is occupied, both are
  returned as they were; when it is empty, the cell holds the current player afterwards,
  every other cell is as before, and the current player is the other side
  (\<open>change_player\<close> swaps Noughts and Crosses). In all three cases the result is a
  value (\<open>Inr\<close>), not an error.
\<close>

theorem C3_try_to_play:
  "try_to_play N None (board, current_player) = Inr (board, current_player) \<and>
   change_player Noughts = Crosses \<and> change_player Crosses = Noughts \<and>
   (wf_board N board \<and> index_in_range N index \<longrightarrow>
      (if board_at N board index = Inr None
       then \<exists>board'.
              try_to_play N (Some index) (board, current_player) =
                Inr (board', change_player current_player) \<and>
              wf_board N board' \<and>
              board_at N board' index = Inr (Some current_player) \<and>
              (\<forall>other. index_in_range N other \<and> other \<noteq> index \<longrightarrow>
                 board_at N board' other = board_at N board other)
       else try_to_play N (Some index) (board, current_player) = Inr (board, current_player)))"
proof -
  have "\<exists>board'.
          try_to_play N (Some index) (board, current_player) =
            Inr (board', change_player current_player) \<and>
          wf_board N board' \<and>
          board_at N board' index = Inr (Some current_player) \<and>
          (\<forall>other. index_in_range N other \<and> other \<noteq> index \<longrightarrow>
             board_at N board' other = board_at N board other)"
    if wf: "wf_board N board" and rng: "index_in_range N index"
      and emp: "board ! cell_offset N index = None"
  proof -
    let ?b = "board[cell_offset N index := Some current_player]"
    have len: "cell_offset N index < length board"
      using cell_offset_less [OF rng] wf by (simp add: wf_board_def)
    have "try_to_play N (Some index) (board, current_player) =
            Inr (?b, change_player current_player)"
      using rng emp by (simp add: try_to_play_Some)
    moreover have "wf_board N ?b" using wf by simp
    moreover have "board_at N ?b index = Inr (Some current_player)"
      using rng len by simp
    moreover have "board_at N ?b other = board_at N board other"
      if "index_in_range N other \<and> other \<noteq> index" for other
    proof -
      from that rng have "cell_offset N other \<noteq> cell_offset N index"
        using cell_offset_inj by blast
      with that show ?thesis by simp
    qed
    ultimately show ?thesis by blast
  qed
  moreover have "try_to_play N (Some index) (board, current_player) = Inr (board, current_player)"
    if "index_in_range N index" "board ! cell_offset N index \<noteq> None"
    using that by (simp add: try_to_play_Some)
  ultimately show ?thesis
    by (simp del: change_player.simps) (simp)
qed

text \<open>The three cases of C3 on the 3 by 3 board, at the centre cell.\<close>

theorem C3_try_to_play_witness:
  "wf_board 3 (empty_board 3) \<and> index_in_range 3 (CellIndex 1 1) \<and>
   board_at 3 (empty_board 3) (CellIndex 1 1) = Inr None \<and>
   (\<exists>board'. try_to_play 3 (Some (CellIndex 1 1)) (empty_board 3, Crosses) = Inr (board', Noughts) \<and>
      board_at 3 board' (CellIndex 1 1) = Inr (Some Crosses)) \<and>
   board_at 3 [None, None, None, None, Some Crosses, None, None, None, None] (CellIndex 1 1) \<noteq> Inr None \<and>
   try_to_play 3 (Some (CellIndex 1 1))
      ([None, None, None, None, Some Crosses, None, None, None, None], Noughts) =
     Inr ([None, None, None, None, Some Crosses, None, None, None, None], Noughts)"
  using C3_try_to_play [of 3 "empty_board 3" Crosses "CellIndex 1 1"]
    C3_try_to_play [of 3 "[None, None, None, None, Some Crosses, None, None, None, None]" Noughts "CellIndex 1 1"]
  by (auto simp add: index_in_range_def wf_board_def empty_board_def cell_offset_def board_at_def)

section \<open>Win-line correctness\<close>

lemma line_owner_SomeD:
  "line_owner N b l = Some p \<Longrightarrow> line_filled N b l p"
  by (auto simp: line_owner_def split: if_splits)

lemma first_won_None_iff:
  "first_won N b ls = None \<longleftrightarrow> (\<forall>l\<in>set ls. \<forall>q. \<not> line_filled N b l q)"
  by (induction ls) (auto simp: line_owner_None_iff split: option.splits dest: line_owner_SomeD)

lemma some_line_filled_iff:
  "some_line_filled N b p \<longleftrightarrow> (\<exists>l\<in>set (lines N). line_filled N b l p)"
  by (simp add: some_line_filled_def list_ex_iff)

lemma first_won_filled:
  assumes "1 \<le> N" "first_won N b (lines N) = Some p"
  shows "some_line_filled N b p"
proof -
  from assms obtain i where "i < length (lines N)" "line_filled N b (lines N ! i) p"
    by (auto simp: first_won_Some_iff)
  then show ?thesis
    unfolding some_line_filled_iff using nth_mem by blast
qed

lemma no_winner_iff:
  "first_won N b (lines N) = None \<longleftrightarrow> (\<forall>q. \<not> some_line_filled N b q)"
  by (auto simp: first_won_None_iff some_line_filled_iff)

text \<open>
  C1, as stated, fails on a board with two won lines of different players. On the 3 by 3
  board whose column \<open>x = 0\<close> holds three crosses and whose column \<open>x = 1\<close> holds three
  noughts, a column is filled by Noughts, and \<^verbatim>\<open>check_for_winner\<close> returns Crosses, the
  owner of the column it meets first, not Noughts.
\<close>

theorem C1_two_won_lines_counterexample:
  "wf_board 3 [Some Crosses, Some Noughts, None,
               Some Crosses, Some Noughts, None,
               Some Crosses, Some Noughts, None] \<and>
   some_line_filled 3 [Some Crosses, Some Noughts, None,
                       Some Crosses, Some Noughts, None,
                       Some Crosses, Some Noughts, None] Noughts \<and>
   check_for_winner 3 [Some Crosses, Some Noughts, None,
                       Some Crosses, Some Noughts, None,
                       Some Crosses, Some Noughts, None] = Inr (Some Crosses) \<and>
   check_for_winner 3 [Some Crosses, Some Noughts, None,
                       Some Crosses, Some Noughts, None,
                       Some Crosses, Some Noughts, None] \<noteq> Inr (Some Noughts)"
  by code_simp

text \<open>
  C1, amended. For a board of size \<open>N \<ge> 1\<close>, \<^verbatim>\<open>check_for_winner\<close> returns the winner \<open>p\<close>
  if and only if, in the order columns, rows, main diagonal, anti-diagonal, the first line
  filled by one player is filled by \<open>p\<close>. So a returned winner fills some line, and no
  winner is returned if and only if no line is filled by either player. No assertion
  fails.
\<close>

theorem C1_check_for_winner_first_won_line:
  assumes "1 \<le> N" and "wf_board N board"
  shows "(check_for_winner N board = Inr (Some p) \<longleftrightarrow>
            (\<exists>i<length (lines N). line_filled N board (lines N ! i) p \<and>
               (\<forall>j<i. \<forall>q. \<not> line_filled N board (lines N ! j) q))) \<and>
         (check_for_winner N board = Inr (Some p) \<longrightarrow> some_line_filled N board p) \<and>
         (check_for_winner N board = Inr None \<longleftrightarrow> (\<forall>q. \<not> some_line_filled N board q)) \<and>
         (\<exists>winner. check_for_winner N board = Inr winner)"
  using assms(1)
  by (simp add: check_for_winner_eq first_won_Some_iff first_won_filled no_winner_iff)

theorem C1_check_for_winner_first_won_line_witness:
  "(1::int) \<le> 3 \<and>
   wf_board 3 [Some Crosses, Some Noughts, None,
               Some Crosses, Some Noughts, None,
               Some Crosses, Some Noughts, None] \<and>
   check_for_winner 3 [Some Crosses, Some Noughts, None,
                       Some Crosses, Some Noughts, None,
                       Some Crosses, Some Noughts, None] = Inr (Some Crosses) \<and>
   (\<exists>i<length (lines 3).
      line_filled 3 [Some Crosses, Some Noughts, None,
                     Some Crosses, Some Noughts, None,
                     Some Crosses, Some Noughts, None] (lines 3 ! i) Crosses \<and>
      (\<forall>j<i. \<forall>q. \<not> line_filled 3 [Some Crosses, Some Noughts, None,
                     Some Crosses, Some Noughts, None,
                     Some Crosses, Some Noughts, None] (lines 3 ! j) q))"
proof -
  let ?B = "[Some Crosses, Some Noughts, None,
             Some Crosses, Some Noughts, None,
             Some Crosses, Some Noughts, None]"
  have one: "(1::int) \<le> 3" by simp
  have wf: "wf_board 3 ?B" by (simp add: wf_board_def)
  have win: "check_for_winner 3 ?B = Inr (Some Crosses)" by code_simp
  from C1_check_for_winner_first_won_line [OF one wf, of Crosses] win one wf
  show ?thesis by simp
qed

section \<open>Drawing and the frame callback\<close>

lemma game_is_finished_eq:
  assumes "1 \<le> N"
  shows "game_is_finished N b =
           Inr (case first_won N b (lines N) of
                  Some w \<Rightarrow>
                    (True, if w = Noughts then ''Noughts have won!'' @ [CHR 0x0A]
                           else ''Crosses have won!'' @ [CHR 0x0A])
                | None \<Rightarrow>
                    if board_is_full b then (True, ''This is a draw!'' @ [CHR 0x0A])
                    else (False, []))"
  using assms by (simp add: game_is_finished_def check_for_winner_eq split: option.splits)

lemma draw_player_frame [simp]:
  "stopped (draw_player p index N ctx) = stopped ctx"
  "mouse (draw_player p index N ctx) = mouse ctx"
  by (simp_all add: draw_player_def draw_nought_def draw_cross_def)

lemma drawn_draw_player:
  "drawn (draw_player p index N ctx) =
     drawn ctx @ (if p = Noughts then [Circle index N]
                  else [Rectangle index N False, Rectangle index N True])"
  by (simp add: draw_player_def draw_nought_def draw_cross_def)

lemma draw_player_neq: "draw_player p index N ctx \<noteq> ctx"
proof
  assume "draw_player p index N ctx = ctx"
  then have "drawn (draw_player p index N ctx) = drawn ctx" by simp
  then show False by (simp add: drawn_draw_player split: if_splits)
qed

lemma draw_board_column_frame:
  "stopped (draw_board_column sz x y ctx) = stopped ctx \<and>
   mouse (draw_board_column sz x y ctx) = mouse ctx"
proof (induction sz x y ctx rule: draw_board_column.induct)
  case (1 sz x y ctx)
  then show ?case
    by (simp add: draw_board_column.simps [of sz x y ctx] draw_cell_def)
qed

lemma draw_board_from_frame:
  "stopped (draw_board_from sz x ctx) = stopped ctx \<and>
   mouse (draw_board_from sz x ctx) = mouse ctx"
proof (induction sz x ctx rule: draw_board_from.induct)
  case (1 sz x ctx)
  then show ?case
    by (simp add: draw_board_from.simps [of sz x ctx] draw_board_column_frame)
qed

lemma draw_board_frame [simp]:
  "stopped (draw_board sz ctx) = stopped ctx" "mouse (draw_board sz ctx) = mouse ctx"
  by (simp_all add: draw_board_def draw_board_from_frame)

lemma draw_noughts_and_crosses_column_ok:
  "0 \<le> x \<Longrightarrow> x < sz \<Longrightarrow> 0 \<le> y \<Longrightarrow>
   \<exists>ctx'. draw_noughts_and_crosses_column sz b x y ctx = Inr ctx' \<and>
          stopped ctx' = stopped ctx \<and> mouse ctx' = mouse ctx"
proof (induction sz b x y ctx rule: draw_noughts_and_crosses_column.induct)
  case (1 sz b x y ctx)
  show ?case
  proof (cases "y < sz")
    case False
    then show ?thesis
      by (simp add: draw_noughts_and_crosses_column.simps [of sz b x y ctx])
  next
    case True
    with "1.prems" have rng: "index_in_range sz (CellIndex x y)"
      by (simp add: index_in_range_def)
    let ?cell = "b ! cell_offset sz (CellIndex x y)"
    let ?ctx = "case ?cell of Some player \<Rightarrow> draw_player player (CellIndex x y) sz ctx | None \<Rightarrow> ctx"
    have read: "board_at sz b (CellIndex x y) = Inr ?cell"
      using rng by simp
    from "1.IH" [OF True read] "1.prems"
    obtain ctx' where "draw_noughts_and_crosses_column sz b x (y + 1) ?ctx = Inr ctx'"
      and "stopped ctx' = stopped ?ctx" and "mouse ctx' = mouse ?ctx"
      by auto
    moreover have "stopped ?ctx = stopped ctx" "mouse ?ctx = mouse ctx"
      by (simp_all split: option.splits)
    ultimately show ?thesis
      using True read
      by (simp add: draw_noughts_and_crosses_column.simps [of sz b x y ctx])
  qed
qed

lemma draw_noughts_and_crosses_from_ok:
  "0 \<le> x \<Longrightarrow>
   \<exists>ctx'. draw_noughts_and_crosses_from sz b x ctx = Inr ctx' \<and>
          stopped ctx' = stopped ctx \<and> mouse ctx' = mouse ctx"
proof (induction sz b x ctx rule: draw_noughts_and_crosses_from.induct)
  case (1 sz b x ctx)
  show ?case
  proof (cases "x < sz")
    case False
    then show ?thesis
      by (simp add: draw_noughts_and_crosses_from.simps [of sz b x ctx])
  next
    case True
    from draw_noughts_and_crosses_column_ok [of x sz 0 b ctx] True "1.prems"
    obtain ctx1 where col: "draw_noughts_and_crosses_column sz b x 0 ctx = Inr ctx1"
      and f1: "stopped ctx1 = stopped ctx" "mouse ctx1 = mouse ctx"
      by auto
    from "1.IH" [OF True col] "1.prems"
    obtain ctx' where "draw_noughts_and_crosses_from sz b (x + 1) ctx1 = Inr ctx'"
      and "stopped ctx' = stopped ctx1" "mouse ctx' = mouse ctx1"
      by auto
    with True col f1 show ?thesis
      by (simp add: draw_noughts_and_crosses_from.simps [of sz b x ctx])
  qed
qed

lemma draw_noughts_and_crosses_ok:
  "\<exists>ctx'. draw_noughts_and_crosses sz b ctx = Inr ctx' \<and>
          stopped ctx' = stopped ctx \<and> mouse ctx' = mouse ctx"
  using draw_noughts_and_crosses_from_ok [of 0 sz b ctx]
  by (simp add: draw_noughts_and_crosses_def)

lemma cell_hovered_by_in_range:
  "cell_hovered_by floor_map position N = Some index \<Longrightarrow> index_in_range N index"
  by (auto simp: cell_hovered_by_def index_in_range_def Let_def split: if_splits prod.splits)

lemma try_draw_player_on_hovered_cell_eq:
  "try_draw_player_on_hovered_cell floor_map N player b ctx =
     Inr (case cell_hovered_by floor_map (mouse ctx) N of
            None \<Rightarrow> ctx
          | Some index \<Rightarrow>
              if b ! cell_offset N index = None then draw_player player index N ctx else ctx)"
  by (auto simp: try_draw_player_on_hovered_cell_def Let_def
      dest: cell_hovered_by_in_range split: option.splits)

lemma update_ok:
  assumes "1 \<le> N" and "game_is_finished N b = Inr (finished, out)"
  shows "\<exists>ctx'. update floor_map N (b, p) ctx = Inr (ctx', out) \<and>
               stopped ctx' = (finished \<or> stopped ctx)"
proof -
  let ?ctx4 = "ctx\<lparr>drawn := drawn ctx @ [Background], stroke_weight := Frame_weight,
                    stroke := White, fill := Transparent\<rparr>"
  from draw_noughts_and_crosses_ok [of N b "draw_board N ?ctx4"]
  obtain ctx6 where d: "draw_noughts_and_crosses N b (draw_board N ?ctx4) = Inr ctx6"
    and s6: "stopped ctx6 = stopped ctx"
    by auto
  let ?ctx7 = "case cell_hovered_by floor_map (mouse ctx6) N of
                 None \<Rightarrow> ctx6
               | Some index \<Rightarrow>
                   if b ! cell_offset N index = None then draw_player p index N ctx6 else ctx6"
  have s7: "stopped ?ctx7 = stopped ctx"
    using s6 by (simp split: option.splits)
  show ?thesis
    using d s7 assms(2)
    by (simp add: update_def Let_def try_draw_player_on_hovered_cell_eq)
qed

lemma mouse_pressed_ok:
  assumes "wf_board N b"
  shows "\<exists>st'. mouse_pressed floor_map N position (b, p) = Inr st' \<and> wf_board N (fst st')"
proof (cases "cell_hovered_by floor_map position N")
  case None
  with assms show ?thesis by (simp add: mouse_pressed_def)
next
  case (Some index)
  then have "index_in_range N index" by (rule cell_hovered_by_in_range)
  with Some assms show ?thesis by (simp add: mouse_pressed_def try_to_play_Some)
qed

lemma empty_cell_not_full:
  assumes "wf_board N b" "index_in_range N index" "board_at N b index = Inr None"
  shows "\<not> board_is_full b"
proof -
  from assms(1,2) have "cell_offset N index < length b"
    using cell_offset_less [of N index] by (simp add: wf_board_def)
  moreover from assms(2,3) have "b ! cell_offset N index = None" by simp
  ultimately have "None \<in> set b" by (metis nth_mem)
  then show ?thesis by (auto simp: board_is_full_def list_all_iff)
qed

section \<open>Winner before draw\<close>

text \<open>
  C6. On a board of size \<open>N \<ge> 1\<close>: when \<^verbatim>\<open>check_for_winner\<close> finds Noughts (Crosses),
  \<^verbatim>\<open>game_is_finished\<close> prints exactly \<^verbatim>\<open>Noughts have won!\<close> (\<^verbatim>\<open>Crosses have won!\<close>) and
  returns true. It prints \<^verbatim>\<open>This is a draw!\<close> and returns true if and only if
  \<^verbatim>\<open>check_for_winner\<close> finds no winner and the board is full. While some line is filled
  by a player, a victory line is printed, never the draw.
\<close>

theorem C6_winner_takes_precedence:
  assumes "1 \<le> N" and "wf_board N board"
  shows "(check_for_winner N board = Inr (Some Noughts) \<longrightarrow>
            game_is_finished N board = Inr (True, ''Noughts have won!'' @ [CHR 0x0A])) \<and>
         (check_for_winner N board = Inr (Some Crosses) \<longrightarrow>
            game_is_finished N board = Inr (True, ''Crosses have won!'' @ [CHR 0x0A])) \<and>
         (game_is_finished N board = Inr (True, ''This is a draw!'' @ [CHR 0x0A]) \<longleftrightarrow>
            check_for_winner N board = Inr None \<and> board_is_full board) \<and>
         (some_line_filled N board p \<longrightarrow>
            game_is_finished N board \<noteq> Inr (True, ''This is a draw!'' @ [CHR 0x0A]) \<and>
            (game_is_finished N board = Inr (True, ''Noughts have won!'' @ [CHR 0x0A]) \<or>
             game_is_finished N board = Inr (True, ''Crosses have won!'' @ [CHR 0x0A])))"
proof -
  have cfw: "check_for_winner N board = Inr (first_won N board (lines N))"
    using assms(1) by (rule check_for_winner_eq)
  have gif: "game_is_finished N board =
           Inr (case first_won N board (lines N) of
                  Some w \<Rightarrow>
                    (True, if w = Noughts then ''Noughts have won!'' @ [CHR 0x0A]
                           else ''Crosses have won!'' @ [CHR 0x0A])
                | None \<Rightarrow>
                    if board_is_full board then (True, ''This is a draw!'' @ [CHR 0x0A])
                    else (False, []))"
    using assms(1) by (rule game_is_finished_eq)
  have "first_won N board (lines N) \<noteq> None" if "some_line_filled N board p"
    using that no_winner_iff [of N board] by auto
  then show ?thesis
    unfolding cfw gif by (auto split: option.splits)
qed

text \<open>C6 on three full 3 by 3 boards: a row of crosses, a column of noughts, and a
  draw.\<close>

theorem C6_winner_takes_precedence_witness:
  "(1::int) \<le> 3 \<and>
   wf_board 3 [Some Crosses, Some Crosses, Some Crosses,
               Some Noughts, Some Noughts, Some Crosses,
               Some Noughts, Some Crosses, Some Noughts] \<and>
   some_line_filled 3 [Some Crosses, Some Crosses, Some Crosses,
                       Some Noughts, Some Noughts, Some Crosses,
                       Some Noughts, Some Crosses, Some Noughts] Crosses \<and>
   board_is_full [Some Crosses, Some Crosses, Some Crosses,
                  Some Noughts, Some Noughts, Some Crosses,
                  Some Noughts, Some Crosses, Some Noughts] \<and>
   game_is_finished 3 [Some Crosses, Some Crosses, Some Crosses,
                       Some Noughts, Some Noughts, Some Crosses,
                       Some Noughts, Some Crosses, Some Noughts] =
     Inr (True, ''Crosses have won!'' @ [CHR 0x0A]) \<and>
   wf_board 3 [Some Noughts, Some Crosses, Some Crosses,
               Some Noughts, Some Crosses, Some Noughts,
               Some Noughts, Some Noughts, Some Crosses] \<and>
   check_for_winner 3 [Some Noughts, Some Crosses, Some Crosses,
                       Some Noughts, Some Crosses, Some Noughts,
                       Some Noughts, Some Noughts, Some Crosses] = Inr (Some Noughts) \<and>
   game_is_finished 3 [Some Noughts, Some Crosses, Some Crosses,
                       Some Noughts, Some Crosses, Some Noughts,
                       Some Noughts, Some Noughts, Some Crosses] =
     Inr (True, ''Noughts have won!'' @ [CHR 0x0A]) \<and>
   wf_board 3 [Some Noughts, Some Crosses, Some Crosses,
               Some Crosses, Some Crosses, Some Noughts,
               Some Noughts, Some Noughts, Some Crosses] \<and>
   check_for_winner 3 [Some Noughts, Some Crosses, Some Crosses,
                       Some Crosses, Some Crosses, Some Noughts,
                       Some Noughts, Some Noughts, Some Crosses] = Inr None \<and>
   board_is_full [Some Noughts, Some Crosses, Some Crosses,
                  Some Crosses, Some Crosses, Some Noughts,
                  Some Noughts, Some Noughts, Some Crosses] \<and>
   game_is_finished 3 [Some Noughts, Some Crosses, Some Crosses,
                       Some Crosses, Some Crosses, Some Noughts,
                       Some Noughts, Some Noughts, Some Crosses] =
     Inr (True, ''This is a draw!'' @ [CHR 0x0A])"
proof -
  let ?B1 = "[Some Crosses, Some Crosses, Some Crosses,
              Some Noughts, Some Noughts, Some Crosses,
              Some Noughts, Some Crosses, Some Noughts]"
  let ?B2 = "[Some Noughts, Some Crosses, Some Crosses,
              Some Noughts, Some Crosses, Some Noughts,
              Some Noughts, Some Noughts, Some Crosses]"
  let ?B3 = "[Some Noughts, Some Crosses, Some Crosses,
              Some Crosses, Some Crosses, Some Noughts,
              Some Noughts, Some Noughts, Some Crosses]"
  have one: "(1::int) \<le> 3" by simp
  have wf: "wf_board 3 ?B1" "wf_board 3 ?B2" "wf_board 3 ?B3"
    by (simp_all add: wf_board_def)
  have line: "some_line_filled 3 ?B1 Crosses" by code_simp
  have w2: "check_for_winner 3 ?B2 = Inr (Some Noughts)" by code_simp
  have w3: "check_for_winner 3 ?B3 = Inr None" by code_simp
  have full: "board_is_full ?B1" "board_is_full ?B3"
    by (simp_all add: board_is_full_def)
  have cross: "game_is_finished 3 ?B1 = Inr (True, ''Crosses have won!'' @ [CHR 0x0A])"
    by code_simp
  from C6_winner_takes_precedence [OF one wf(1), of Crosses]
    C6_winner_takes_precedence [OF one wf(2), of Noughts]
    C6_winner_takes_precedence [OF one wf(3), of Noughts]
    one wf line w2 w3 full cross
  show ?thesis by simp
qed

section \<open>No output while the game is going on\<close>

text \<open>
  C10. On a board of size \<open>N \<ge> 1\<close> where no line is filled by a player and some cell is
  empty, \<^verbatim>\<open>game_is_finished\<close> returns false and writes nothing, and the frame callback
  writes nothing and does not stop the loop.
\<close>

theorem C10_ongoing_game_is_silent:
  assumes "1 \<le> N" and "wf_board N board"
    and "\<forall>p. \<not> some_line_filled N board p"
    and "\<exists>index. index_in_range N index \<and> board_at N board index = Inr None"
  shows "game_is_finished N board = Inr (False, []) \<and>
         (\<exists>ctx'. update floor_map N (board, current_player) ctx = Inr (ctx', []) \<and>
                 stopped ctx' = stopped ctx)"
proof -
  from assms(2,4) have "\<not> board_is_full board"
    using empty_cell_not_full by blast
  moreover from assms(3) have "first_won N board (lines N) = None"
    by (simp add: no_winner_iff)
  ultimately have fin: "game_is_finished N board = Inr (False, [])"
    using assms(1) by (simp add: game_is_finished_eq)
  from update_ok [OF assms(1) fin, of floor_map current_player ctx] fin
  show ?thesis by simp
qed

text \<open>C10 on the empty 3 by 3 board, with the identity as the floor map and the
  pointer over the centre cell.\<close>

theorem C10_ongoing_game_is_silent_witness:
  "(1::int) \<le> 3 \<and> wf_board 3 (empty_board 3) \<and>
   (\<forall>p. \<not> some_line_filled 3 (empty_board 3) p) \<and>
   (\<exists>index. index_in_range 3 index \<and> board_at 3 (empty_board 3) index = Inr None) \<and>
   game_is_finished 3 (empty_board 3) = Inr (False, []) \<and>
   (\<exists>ctx'. update (\<lambda>position n. position) 3 (empty_board 3, Crosses)
             \<lparr>mouse = (1, 1), stroke = White, fill = Transparent,
              stroke_weight = Frame_weight, drawn = [], stopped = False\<rparr> = Inr (ctx', []) \<and>
           stopped ctx' = False)"
proof -
  have one: "(1::int) \<le> 3" by simp
  have wf: "wf_board 3 (empty_board 3)" by simp
  have none: "\<forall>p. \<not> some_line_filled 3 (empty_board 3) p"
  proof
    fix p show "\<not> some_line_filled 3 (empty_board 3) p"
      by (cases p; code_simp)
  qed
  have "index_in_range 3 (CellIndex 1 1) \<and> board_at 3 (empty_board 3) (CellIndex 1 1) = Inr None"
    by code_simp
  then have ex: "\<exists>index. index_in_range 3 index \<and> board_at 3 (empty_board 3) index = Inr None"
    by blast
  from C10_ongoing_game_is_silent [OF one wf none ex, of "\<lambda>position n. position" Crosses
      "\<lparr>mouse = (1, 1), stroke = White, fill = Transparent,
        stroke_weight = Frame_weight, drawn = [], stopped = False\<rparr>"]
    one wf none ex
  show ?thesis by simp
qed

section \<open>Hover preview\<close>

text \<open>
  C9. When the pointer hovers a cell and that cell is empty,
  \<^verbatim>\<open>try_draw_player_on_hovered_cell\<close> draws the given player there: the context is the one
  \<^verbatim>\<open>draw_player\<close> produces, whose drawn shapes are those of before followed by the circle
  of a nought or the two rectangles of a cross. In every other case (no cell hovered, or
  the hovered cell occupied) the context is left as it was, and drawing a player never
  leaves the context as it was. No assertion fails.
\<close>

theorem C9_hover_preview:
  "(\<forall>index. cell_hovered_by floor_map (mouse ctx) N = Some index \<and>
            board_at N board index = Inr None \<longrightarrow>
      try_draw_player_on_hovered_cell floor_map N player board ctx =
        Inr (draw_player player index N ctx) \<and>
      drawn (draw_player player index N ctx) =
        drawn ctx @ (if player = Noughts then [Circle index N]
                     else [Rectangle index N False, Rectangle index N True])) \<and>
   (\<not> (\<exists>index. cell_hovered_by floor_map (mouse ctx) N = Some index \<and>
                board_at N board index = Inr None) \<longrightarrow>
      try_draw_player_on_hovered_cell floor_map N player board ctx = Inr ctx) \<and>
   (try_draw_player_on_hovered_cell floor_map N player board ctx \<noteq> Inr ctx \<longleftrightarrow>
      (\<exists>index. cell_hovered_by floor_map (mouse ctx) N = Some index \<and>
               board_at N board index = Inr None))"
proof -
  have rd: "board_at N board index = Inr (board ! cell_offset N index)"
    if "cell_hovered_by floor_map (mouse ctx) N = Some index" for index
    using cell_hovered_by_in_range [OF that] by simp
  show ?thesis
  proof (cases "cell_hovered_by floor_map (mouse ctx) N")
    case None
    then show ?thesis
      by (simp add: try_draw_player_on_hovered_cell_eq)
  next
    case (Some index)
    with rd [OF Some] show ?thesis
      by (simp add: try_draw_player_on_hovered_cell_eq drawn_draw_player draw_player_neq)
  qed
qed

text \<open>C9 on the 3 by 3 board with a cross in the centre, the identity as the floor map:
  with the pointer over the empty cell (0, 2) the nought is drawn; with the pointer over
  the centre, and with the pointer outside the board, nothing is.\<close>

theorem C9_hover_preview_witness:
  "cell_hovered_by (\<lambda>position n. position) (0, 2) 3 = Some (CellIndex 0 2) \<and>
   board_at 3 [None, None, None, None, Some Crosses, None, None, None, None] (CellIndex 0 2) =
     Inr None \<and>
   try_draw_player_on_hovered_cell (\<lambda>position n. position) 3 Noughts
     [None, None, None, None, Some Crosses, None, None, None, None]
     \<lparr>mouse = (0, 2), stroke = White, fill = Transparent,
      stroke_weight = Frame_weight, drawn = [], stopped = False\<rparr> =
     Inr \<lparr>mouse = (0, 2), stroke = Black, fill = Transparent,
          stroke_weight = Mark_weight 3, drawn = [Circle (CellIndex 0 2) 3], stopped = False\<rparr> \<and>
   \<not> (\<exists>index. cell_hovered_by (\<lambda>position n. position) (1, 1) 3 = Some index \<and>
        board_at 3 [None, None, None, None, Some Crosses, None, None, None, None] index =
          Inr None) \<and>
   try_draw_player_on_hovered_cell (\<lambda>position n. position) 3 Noughts
     [None, None, None, None, Some Crosses, None, None, None, None]
     \<lparr>mouse = (1, 1), stroke = White, fill = Transparent,
      stroke_weight = Frame_weight, drawn = [], stopped = False\<rparr> =
     Inr \<lparr>mouse = (1, 1), stroke = White, fill = Transparent,
          stroke_weight = Frame_weight, drawn = [], stopped = False\<rparr> \<and>
   \<not> (\<exists>index. cell_hovered_by (\<lambda>position n. position) (3, 0) 3 = Some index \<and>
        board_at 3 [None, None, None, None, Some Crosses, None, None, None, None] index =
          Inr None) \<and>
   try_draw_player_on_hovered_cell (\<lambda>position n. position) 3 Noughts
     [None, None, None, None, Some Crosses, None, None, None, None]
     \<lparr>mouse = (3, 0), stroke = White, fill = Transparent,
      stroke_weight = Frame_weight, drawn = [], stopped = False\<rparr> =
     Inr \<lparr>mouse = (3, 0), stroke = White, fill = Transparent,
          stroke_weight = Frame_weight, drawn = [], stopped = False\<rparr>"
proof -
  let ?B = "[None, None, None, None, Some Crosses, None, None, None, None]"
  let ?fm = "\<lambda>(position :: int \<times> int) (n :: int). position"
  let ?ctx = "\<lambda>m. \<lparr>mouse = m, stroke = White, fill = Transparent,
                    stroke_weight = Frame_weight, drawn = [], stopped = False\<rparr>"
  have h1: "cell_hovered_by ?fm (0, 2) 3 = Some (CellIndex 0 2)"
    and h2: "cell_hovered_by ?fm (1, 1) 3 = Some (CellIndex 1 1)"
    and h3: "cell_hovered_by ?fm (3, 0) 3 = None"
    by (simp_all add: cell_hovered_by_def)
  have c1: "board_at 3 ?B (CellIndex 0 2) = Inr None"
    and c2: "board_at 3 ?B (CellIndex 1 1) = Inr (Some Crosses)"
    by (simp_all add: board_at_def index_in_range_def cell_offset_def)
  have d: "draw_player Noughts (CellIndex 0 2) 3 (?ctx (0, 2)) =
             \<lparr>mouse = (0, 2), stroke = Black, fill = Transparent,
              stroke_weight = Mark_weight 3, drawn = [Circle (CellIndex 0 2) 3], stopped = False\<rparr>"
    by (simp add: draw_player_def draw_nought_def)
  from C9_hover_preview [of ?fm "?ctx (0, 2)" 3 ?B Noughts]
    C9_hover_preview [of ?fm "?ctx (1, 1)" 3 ?B Noughts]
    C9_hover_preview [of ?fm "?ctx (3, 0)" 3 ?B Noughts]
    h1 h2 h3 c1 c2 d
  show ?thesis by simp
qed

section \<open>The assertion of the board is never reached\<close>

text \<open>The bound \<open>N \<ge> 1\<close> is needed: \<^verbatim>\<open>check_for_winner_on_line\<close> reads
  \<^verbatim>\<open>board[index_generator(0)]\<close> outside its loop, which on a board of size 0 (a size the
  game never instantiates) fails the assertion.\<close>

lemma check_for_winner_size_0: "check_for_winner 0 [] = Inl Assertion_failed"
  by code_simp

text \<open>
  C8. For a board of size \<open>N \<ge> 1\<close> (the game's is 3): an index returned by
  \<^verbatim>\<open>cell_hovered_by\<close> satisfies the condition of the assertion and addresses an element of
  the array; and none of the callers of \<^verbatim>\<open>Board::operator[]\<close> fails the assertion: the
  click callback (which returns a board of the same size), \<^verbatim>\<open>check_for_winner\<close>,
  \<^verbatim>\<open>game_is_finished\<close>, \<^verbatim>\<open>draw_noughts_and_crosses\<close>, the hover preview and the frame
  callback all return a value.
\<close>

theorem C8_assertion_unreachable:
  assumes "1 \<le> N" and "wf_board N board"
  shows "(\<forall>index. cell_hovered_by floor_map position N = Some index \<longrightarrow>
            index_in_range N index \<and> cell_offset N index < length board) \<and>
         (\<exists>st'. mouse_pressed floor_map N position (board, current_player) = Inr st' \<and>
                wf_board N (fst st')) \<and>
         (\<exists>winner. check_for_winner N board = Inr winner) \<and>
         (\<exists>r. game_is_finished N board = Inr r) \<and>
         (\<exists>ctx'. draw_noughts_and_crosses N board ctx = Inr ctx') \<and>
         (\<exists>ctx'. try_draw_player_on_hovered_cell floor_map N current_player board ctx = Inr ctx') \<and>
         (\<exists>r. update floor_map N (board, current_player) ctx = Inr r)"
proof -
  have "index_in_range N index \<and> cell_offset N index < length board"
    if "cell_hovered_by floor_map position N = Some index" for index
    using cell_hovered_by_in_range [OF that] cell_offset_less [of N index] assms(2)
    by (simp add: wf_board_def)
  moreover have "\<exists>winner. check_for_winner N board = Inr winner"
    using assms(1) by (simp add: check_for_winner_eq)
  moreover obtain finished out where fin: "game_is_finished N board = Inr (finished, out)"
  proof -
    from assms(1) have "\<exists>r. game_is_finished N board = Inr r"
      by (simp add: game_is_finished_eq)
    with that show thesis by (metis surj_pair)
  qed
  moreover have "\<exists>ctx'. draw_noughts_and_crosses N board ctx = Inr ctx'"
    using draw_noughts_and_crosses_ok [of N board ctx] by blast
  moreover have "\<exists>r. update floor_map N (board, current_player) ctx = Inr r"
    using update_ok [OF assms(1) fin, of floor_map current_player ctx] by blast
  ultimately show ?thesis
    using mouse_pressed_ok [OF assms(2), of floor_map position current_player]
    by (simp add: try_draw_player_on_hovered_cell_eq)
qed

text \<open>C8 at the game's board size, on the empty board, with a click on the centre.\<close>

theorem C8_assertion_unreachable_witness:
  "(1::int) \<le> session_board_size \<and>
   wf_board session_board_size (empty_board session_board_size) \<and>
   cell_hovered_by (\<lambda>position n. position) (1, 1) session_board_size = Some (CellIndex 1 1) \<and>
   index_in_range session_board_size (CellIndex 1 1) \<and>
   (\<exists>st'. mouse_pressed (\<lambda>position n. position) session_board_size (1, 1)
            (empty_board session_board_size, Crosses) = Inr st') \<and>
   (\<exists>winner. check_for_winner session_board_size (empty_board session_board_size) = Inr winner)"
proof -
  have one: "(1::int) \<le> session_board_size" by (simp add: session_board_size_def)
  have wf: "wf_board session_board_size (empty_board session_board_size)" by simp
  have h: "cell_hovered_by (\<lambda>(position :: int \<times> int) (n :: int). position) (1, 1)
             session_board_size = Some (CellIndex 1 1)"
    by (simp add: cell_hovered_by_def session_board_size_def)
  from C8_assertion_unreachable [OF one wf, of "\<lambda>position n. position" "(1, 1)" Crosses
      "\<lparr>mouse = (1, 1), stroke = White, fill = Transparent,
        stroke_weight = Frame_weight, drawn = [], stopped = False\<rparr>"] h one wf
  show ?thesis by auto
qed

section \<open>Sequences of calls\<close>

lemma try_to_play_cases:
  assumes "wf_board N b" and "try_to_play N c (b, p) = Inr (b', p')"
  shows "(b' = b \<and> p' = p) \<or>
         (\<exists>k<length b. b ! k = None \<and> b' = b[k := Some p] \<and> p' = change_player p)"
proof (cases c)
  case None
  with assms(2) show ?thesis by simp
next
  case (Some index)
  show ?thesis
  proof (cases "index_in_range N index")
    case False
    with Some assms(2) show ?thesis
      by (simp add: try_to_play_out_of_range)
  next
    case True
    then have "cell_offset N index < length b"
      using cell_offset_less [of N index] assms(1) by (simp add: wf_board_def)
    with True Some assms(2) show ?thesis
      by (auto simp: try_to_play_Some simp del: change_player.simps split: if_splits)
  qed
qed

lemma try_to_play_wf:
  assumes "wf_board N (fst st)" and "try_to_play N c st = Inr st'"
  shows "wf_board N (fst st')"
  using try_to_play_cases [of N "fst st" c "snd st" "fst st'" "snd st'"] assms
  by auto

lemma play_trace_hd: "\<exists>rest. play_trace N cs st = st # rest"
  by (cases cs) simp_all

lemma occupied_update:
  "k < length b \<Longrightarrow> b ! k = None \<Longrightarrow> occupied (b[k := Some p]) = Suc (occupied b)"
proof (induction b arbitrary: k)
  case Nil
  then show ?case by simp
next
  case (Cons c b)
  then show ?case
    by (cases k) (simp_all add: occupied_def)
qed

lemma occupied_le: "occupied b \<le> length b"
  by (simp add: occupied_def)

lemma occupied_full: "occupied b = length b \<Longrightarrow> board_is_full b"
proof (induction b)
  case Nil
  show ?case by (simp add: board_is_full_def)
next
  case (Cons c b)
  have le: "occupied b \<le> length b" by (rule occupied_le)
  show ?case
  proof (cases c)
    case None
    with Cons.prems le show ?thesis by (simp add: occupied_def)
  next
    case (Some p)
    with Cons.prems have "occupied b = length b" by (simp add: occupied_def)
    with Cons.IH Some show ?thesis by (simp add: board_is_full_def)
  qed
qed

lemma legal_moves_trace:
  "wf_board N (fst st) \<Longrightarrow>
   legal_moves (play_trace N cs st) + occupied (fst st) =
     occupied (fst (last (play_trace N cs st)))"
proof (induction cs arbitrary: st)
  case Nil
  show ?case by simp
next
  case (Cons c cs)
  show ?case
  proof (cases "try_to_play N c st")
    case (Inl e)
    then show ?thesis by simp
  next
    case (Inr st')
    obtain rest where tr: "play_trace N cs st' = st' # rest"
      using play_trace_hd by blast
    have wf': "wf_board N (fst st')"
      using Cons.prems Inr by (rule try_to_play_wf)
    have IH: "legal_moves (st' # rest) + occupied (fst st') = occupied (fst (last (st' # rest)))"
      using Cons.IH [OF wf'] tr by simp
    from try_to_play_cases [of N "fst st" c "snd st" "fst st'" "snd st'"] Cons.prems Inr
    consider "fst st' = fst st"
      | k where "k < length (fst st)" "fst st ! k = None" "fst st' = (fst st)[k := Some (snd st)]"
      by auto
    then have "(if fst st \<noteq> fst st' then 1 else 0) + occupied (fst st) = occupied (fst st')"
    proof cases
      case 1
      then show ?thesis by simp
    next
      case 2
      from 2(1,3) have "fst st' ! k = Some (snd st)" by simp
      with 2(2) have "fst st \<noteq> fst st'" by auto
      with 2 show ?thesis by (simp add: occupied_update)
    qed
    with IH show ?thesis
      using Inr tr by simp
  qed
qed

lemma writes_at_trace:
  "wf_board N (fst st) \<Longrightarrow> k < length (fst st) \<Longrightarrow>
   writes_at k (play_trace N cs st) + (if fst st ! k = None then 0 else 1) =
     (if fst (last (play_trace N cs st)) ! k = None then 0 else 1)"
proof (induction cs arbitrary: st)
  case Nil
  show ?case by simp
next
  case (Cons c cs)
  show ?case
  proof (cases "try_to_play N c st")
    case (Inl e)
    then show ?thesis by simp
  next
    case (Inr st')
    obtain rest where tr: "play_trace N cs st' = st' # rest"
      using play_trace_hd by blast
    have wf': "wf_board N (fst st')"
      using Cons.prems(1) Inr by (rule try_to_play_wf)
    with Cons.prems have k': "k < length (fst st')"
      by (simp add: wf_board_def)
    have IH: "writes_at k (st' # rest) + (if fst st' ! k = None then 0 else 1) =
                (if fst (last (st' # rest)) ! k = None then 0 else (1::nat))"
      using Cons.IH [OF wf' k'] tr by simp
    from try_to_play_cases [of N "fst st" c "snd st" "fst st'" "snd st'"] Cons.prems(1) Inr
    consider "fst st' = fst st"
      | j where "j < length (fst st)" "fst st ! j = None" "fst st' = (fst st)[j := Some (snd st)]"
      by auto
    then have "(if fst st ! k \<noteq> fst st' ! k then 1 else 0) + (if fst st ! k = None then 0 else 1) =
               (if fst st' ! k = None then 0 else (1::nat))"
    proof cases
      case 1
      then show ?thesis by simp
    next
      case 2
      show ?thesis
      proof (cases "j = k")
        case True
        with 2 show ?thesis by simp
      next
        case False
        with 2 show ?thesis by simp
      qed
    qed
    with IH show ?thesis
      using Inr tr by (simp split: if_splits)
  qed
qed

lemma cells_kept_trace:
  "wf_board N (fst st) \<Longrightarrow> cells_kept (play_trace N cs st)"
proof (induction cs arbitrary: st)
  case Nil
  show ?case by simp
next
  case (Cons c cs)
  show ?case
  proof (cases "try_to_play N c st")
    case (Inl e)
    then show ?thesis by simp
  next
    case (Inr st')
    obtain rest where tr: "play_trace N cs st' = st' # rest"
      using play_trace_hd by blast
    have wf': "wf_board N (fst st')"
      using Cons.prems Inr by (rule try_to_play_wf)
    have IH: "cells_kept (st' # rest)"
      using Cons.IH [OF wf'] tr by simp
    from try_to_play_cases [of N "fst st" c "snd st" "fst st'" "snd st'"] Cons.prems Inr
    consider "fst st' = fst st"
      | j where "j < length (fst st)" "fst st ! j = None" "fst st' = (fst st)[j := Some (snd st)]"
      by auto
    then have "\<forall>k<length (fst st). fst st ! k \<noteq> None \<longrightarrow> fst st' ! k = fst st ! k"
    proof cases
      case 1
      then show ?thesis by simp
    next
      case 2
      then show ?thesis by (auto simp: nth_list_update)
    qed
    with IH show ?thesis
      using Inr tr by (simp add: list_all_iff)
  qed
qed

section \<open>Move legality preservation\<close>

text \<open>
  C4. Take any sequence of \<^verbatim>\<open>try_to_play\<close> calls from the empty board, and the states it
  goes through (up to a failed assertion, if an index outside the board is passed). From
  each state to the next every occupied cell keeps its occupant, so a cell changes only
  when it was empty. In the last state, a cell that is occupied was written by exactly one
  call of the sequence, and a cell that is empty by none. This holds for every element of
  the array, and so for the cell at every index inside the board.
\<close>

theorem C4_written_once_never_overwritten:
  "cells_kept (game_trace N calls) \<and>
   (\<forall>k<nat (N * N).
      writes_at k (game_trace N calls) =
        (if fst (last (game_trace N calls)) ! k = None then 0 else 1)) \<and>
   (\<forall>index. index_in_range N index \<longrightarrow>
      writes_at (cell_offset N index) (game_trace N calls) =
        (if board_at N (fst (last (game_trace N calls))) index = Inr None then 0 else 1))"
proof -
  have wf: "wf_board N (fst (empty_board N, Crosses))" by simp
  have flat: "writes_at k (game_trace N calls) =
                (if fst (last (game_trace N calls)) ! k = None then 0 else 1)"
    if "k < nat (N * N)" for k
    using writes_at_trace [OF wf, of k calls] that
    by (simp add: game_trace_def empty_board_def)
  have "writes_at (cell_offset N index) (game_trace N calls) =
          (if board_at N (fst (last (game_trace N calls))) index = Inr None then 0 else 1)"
    if "index_in_range N index" for index
    using flat [OF cell_offset_less [OF that]] that by simp
  with flat cells_kept_trace [OF wf, of calls] show ?thesis
    by (simp add: game_trace_def)
qed

text \<open>C4 on the 3 by 3 board: a move to the centre, a second click on the centre, a
  click outside the board, and a move to the corner (0, 0).\<close>

theorem C4_written_once_never_overwritten_witness:
  "index_in_range 3 (CellIndex 1 1) \<and> index_in_range 3 (CellIndex 2 2) \<and>
   cell_offset 3 (CellIndex 1 1) < nat (3 * 3) \<and>
   fst (last (game_trace 3
     [Some (CellIndex 1 1), Some (CellIndex 1 1), None, Some (CellIndex 0 0)])) =
     [Some Noughts, None, None, None, Some Crosses, None, None, None, None] \<and>
   writes_at (cell_offset 3 (CellIndex 1 1)) (game_trace 3
     [Some (CellIndex 1 1), Some (CellIndex 1 1), None, Some (CellIndex 0 0)]) = 1 \<and>
   writes_at (cell_offset 3 (CellIndex 2 2)) (game_trace 3
     [Some (CellIndex 1 1), Some (CellIndex 1 1), None, Some (CellIndex 0 0)]) = 0 \<and>
   cells_kept (game_trace 3
     [Some (CellIndex 1 1), Some (CellIndex 1 1), None, Some (CellIndex 0 0)])"
proof -
  let ?calls = "[Some (CellIndex 1 1), Some (CellIndex 1 1), None, Some (CellIndex 0 0)]"
  have rng: "index_in_range 3 (CellIndex 1 1)" "index_in_range 3 (CellIndex 2 2)"
    by (simp_all add: index_in_range_def)
  have off: "cell_offset 3 (CellIndex 1 1) = 4" "cell_offset 3 (CellIndex 2 2) = 8"
    by (simp_all add: cell_offset_def)
  have final: "fst (last (game_trace 3 ?calls)) =
                 [Some Noughts, None, None, None, Some Crosses, None, None, None, None]"
    by code_simp
  from C4_written_once_never_overwritten [of 3 ?calls] rng off final
  show ?thesis by (auto simp: board_at_def)
qed

section \<open>Termination\<close>

text \<open>
  C7. A sequence of \<^verbatim>\<open>try_to_play\<close> calls from the empty board of size \<open>N \<ge> 1\<close> changes
  the board at most \<open>N * N\<close> times. When it has changed it \<open>N * N\<close> times the board is
  full, \<^verbatim>\<open>game_is_finished\<close> returns true, and the frame callback calls \<^verbatim>\<open>stop()\<close>.
\<close>

theorem C7_at_most_N_squared_legal_moves:
  assumes "1 \<le> N"
  shows "legal_moves (game_trace N calls) \<le> nat (N * N) \<and>
         (legal_moves (game_trace N calls) = nat (N * N) \<longrightarrow>
            board_is_full (fst (last (game_trace N calls))) \<and>
            (\<exists>out. game_is_finished N (fst (last (game_trace N calls))) = Inr (True, out)) \<and>
            (\<exists>ctx' out. update floor_map N (last (game_trace N calls)) ctx = Inr (ctx', out) \<and>
                        stopped ctx'))"
proof -
  let ?final = "fst (last (game_trace N calls))"
  have wf: "wf_board N (fst (empty_board N, Crosses))" by simp
  have "occupied (empty_board N) = 0"
    by (simp add: occupied_def empty_board_def)
  with legal_moves_trace [OF wf, of calls]
  have moves: "legal_moves (game_trace N calls) = occupied ?final"
    by (simp add: game_trace_def)
  obtain rest where "game_trace N calls = (empty_board N, Crosses) # rest"
    unfolding game_trace_def using play_trace_hd by blast
  then have "last (game_trace N calls) \<in> set (game_trace N calls)"
    by simp
  have len: "length ?final = nat (N * N)"
  proof -
    have "\<forall>s\<in>set (play_trace N cs st). wf_board N (fst s)" if "wf_board N (fst st)" for cs st
      using that
    proof (induction cs arbitrary: st)
      case Nil
      then show ?case by simp
    next
      case (Cons c cs)
      then show ?case
        by (cases "try_to_play N c st") (auto dest: try_to_play_wf)
    qed
    from this [OF wf, of calls] \<open>last (game_trace N calls) \<in> set (game_trace N calls)\<close>
    show ?thesis by (simp add: game_trace_def wf_board_def)
  qed
  have bound: "legal_moves (game_trace N calls) \<le> nat (N * N)"
    using moves occupied_le [of ?final] len by simp
  have "board_is_full ?final \<and>
        (\<exists>out. game_is_finished N ?final = Inr (True, out)) \<and>
        (\<exists>ctx' out. update floor_map N (last (game_trace N calls)) ctx = Inr (ctx', out) \<and>
                    stopped ctx')"
    if "legal_moves (game_trace N calls) = nat (N * N)"
  proof -
    from that moves len have full: "board_is_full ?final"
      by (intro occupied_full) simp
    from full assms have "\<exists>out. game_is_finished N ?final = Inr (True, out)"
      by (simp add: game_is_finished_eq split: option.splits)
    then obtain out where fin: "game_is_finished N ?final = Inr (True, out)" ..
    from update_ok [OF assms fin, of floor_map "snd (last (game_trace N calls))" ctx]
    have "\<exists>ctx' out. update floor_map N (last (game_trace N calls)) ctx = Inr (ctx', out) \<and>
                     stopped ctx'"
      by auto
    with full fin show ?thesis by blast
  qed
  with bound show ?thesis by blast
qed

text \<open>C7 on the 3 by 3 board, with the nine moves of a drawn game (and a click on an
  occupied cell among them).\<close>

theorem C7_at_most_N_squared_legal_moves_witness:
  "(1::int) \<le> 3 \<and>
   legal_moves (game_trace 3
     [Some (CellIndex 1 1), Some (CellIndex 0 0), Some (CellIndex 2 0), Some (CellIndex 0 2),
      Some (CellIndex 0 2), Some (CellIndex 0 1), Some (CellIndex 2 1), Some (CellIndex 1 0),
      Some (CellIndex 1 2), Some (CellIndex 2 2)]) = nat (3 * 3) \<and>
   board_is_full (fst (last (game_trace 3
     [Some (CellIndex 1 1), Some (CellIndex 0 0), Some (CellIndex 2 0), Some (CellIndex 0 2),
      Some (CellIndex 0 2), Some (CellIndex 0 1), Some (CellIndex 2 1), Some (CellIndex 1 0),
      Some (CellIndex 1 2), Some (CellIndex 2 2)]))) \<and>
   (\<exists>out. game_is_finished 3 (fst (last (game_trace 3
     [Some (CellIndex 1 1), Some (CellIndex 0 0), Some (CellIndex 2 0), Some (CellIndex 0 2),
      Some (CellIndex 0 2), Some (CellIndex 0 1), Some (CellIndex 2 1), Some (CellIndex 1 0),
      Some (CellIndex 1 2), Some (CellIndex 2 2)]))) = Inr (True, out))"
proof -
  let ?calls = "[Some (CellIndex 1 1), Some (CellIndex 0 0), Some (CellIndex 2 0),
                 Some (CellIndex 0 2), Some (CellIndex 0 2), Some (CellIndex 0 1),
                 Some (CellIndex 2 1), Some (CellIndex 1 0), Some (CellIndex 1 2),
                 Some (CellIndex 2 2)]"
  have one: "(1::int) \<le> 3" by simp
  have nine: "legal_moves (game_trace 3 ?calls) = 9" by code_simp
  from C7_at_most_N_squared_legal_moves [OF one, of ?calls "\<lambda>position n. position"
      "\<lparr>mouse = (1, 1), stroke = White, fill = Transparent,
        stroke_weight = Frame_weight, drawn = [], stopped = False\<rparr>"] nine
  show ?thesis by simp
qed

end
